theory Spec2Isabelle
  imports Complex_Main "HOL-Library.Multiset"
begin

section \<open>Errors\<close>

text \<open>
  Every \<^verbatim>\<open>throw\<close> of \<^verbatim>\<open>node.js\<close> is a value of this type. The four errors the program
  raises itself are all JavaScript \<^verbatim>\<open>Error\<close> objects that differ in their message:
  \<^item> \<open>DivisionByZero\<close>: \<^verbatim>\<open>'Denominator cannot be zero'\<close> (Rational constructor);
  \<^item> \<open>NonIntegralResult\<close>: \<^verbatim>\<open>'Result is not an integer: n/d'\<close> (toBigInt);
  \<^item> \<open>InvalidDigit\<close>: \<^verbatim>\<open>'Invalid digit ...'\<close> (parseBigInt);
  \<^item> \<open>DigitOutOfRange\<close>: \<^verbatim>\<open>'Digit ... out of range ...'\<close> (parseBigInt).
  The other three are raised by the language: \<open>SyntaxError\<close> by \<^verbatim>\<open>BigInt(string)\<close> on a
  string that is no integer literal, \<open>TypeError\<close> by reading a property of \<^verbatim>\<open>undefined\<close>,
  \<open>RangeError\<close> by a BigInt division by \<^verbatim>\<open>0n\<close>.
\<close>

datatype error =
    DivisionByZero
  | NonIntegralResult
  | InvalidDigit
  | DigitOutOfRange
  | SyntaxError
  | TypeError
  | RangeError

section \<open>BigInt arithmetic\<close>

text \<open>
  A BigInt is an unbounded integer, so it is an \<^typ>\<open>int\<close>. Its \<^verbatim>\<open>/\<close> and \<^verbatim>\<open>%\<close> truncate
  towards zero (the remainder has the sign of the dividend), unlike \<open>div\<close> and \<open>mod\<close> of
  HOL, which round down; both throw a RangeError on a zero divisor.
\<close>

definition bigint_div :: "int \<Rightarrow> int \<Rightarrow> error + int" where
  "bigint_div a b =
     (if b = 0 then Inl RangeError else Inr (sgn a * sgn b * (\<bar>a\<bar> div \<bar>b\<bar>)))"

text \<open>The remainder is only ever taken behind the loop guard \<^verbatim>\<open>b !== 0n\<close>.\<close>

definition bigint_rem :: "int \<Rightarrow> int \<Rightarrow> int" where
  "bigint_rem a b = sgn a * (\<bar>a\<bar> mod \<bar>b\<bar>)"

text \<open>The \<^verbatim>\<open>while (b !== 0n)\<close> loop of \<^verbatim>\<open>gcd\<close>, on the state \<open>(a, b)\<close>.\<close>

function gcd_loop :: "int \<Rightarrow> int \<Rightarrow> int" where
  "gcd_loop a b = (if b \<noteq> 0 then gcd_loop b (bigint_rem a b) else a)"
  by pat_completeness auto
termination
proof (relation "measure (\<lambda>(a, b). nat \<bar>b\<bar>)")
  show "wf (measure (\<lambda>(a, b). nat \<bar>b\<bar>))" by simp
next
  fix a b :: int
  assume b: "b \<noteq> 0"
  have "\<bar>bigint_rem a b\<bar> \<le> \<bar>a\<bar> mod \<bar>b\<bar>"
    using b by (cases "a = 0") (simp_all add: bigint_rem_def abs_mult)
  also have "\<dots> < \<bar>b\<bar>"
    using b by simp
  finally show "((b, bigint_rem a b), (a, b)) \<in> measure (\<lambda>(a, b). nat \<bar>b\<bar>)"
    by simp
qed

definition gcd_js :: "int \<Rightarrow> int \<Rightarrow> int" where
  "gcd_js a b = gcd_loop (if a < 0 then - a else a) (if b < 0 then - b else b)"

section \<open>The Rational class\<close>

text \<open>The fields \<^verbatim>\<open>this.n\<close> and \<^verbatim>\<open>this.d\<close>.\<close>

record rational =
  r_n :: int
  r_d :: int

text \<open>The constructor: zero check, sign normalisation, division by the gcd.\<close>

definition Rational :: "int \<Rightarrow> int \<Rightarrow> error + rational" where
  "Rational numerator denominator =
     (if denominator = 0 then Inl DivisionByZero
      else
        let numerator' = (if denominator < 0 then - numerator else numerator);
            denominator' = (if denominator < 0 then - denominator else denominator);
            g = gcd_js numerator' denominator'
        in case bigint_div numerator' g of
             Inl e \<Rightarrow> Inl e
           | Inr qn \<Rightarrow>
               (case bigint_div denominator' g of
                  Inl e \<Rightarrow> Inl e
                | Inr qd \<Rightarrow> Inr \<lparr>r_n = qn, r_d = qd\<rparr>))"

definition Rational_add :: "rational \<Rightarrow> rational \<Rightarrow> error + rational" where
  "Rational_add this r = Rational (r_n this * r_d r + r_n r * r_d this) (r_d this * r_d r)"

definition Rational_multiply :: "rational \<Rightarrow> rational \<Rightarrow> error + rational" where
  "Rational_multiply this r = Rational (r_n this * r_n r) (r_d this * r_d r)"

definition Rational_toBigInt :: "rational \<Rightarrow> error + int" where
  "Rational_toBigInt this =
     (if r_d this \<noteq> 1 then Inl NonIntegralResult else Inr (r_n this))"

section \<open>parseBigInt\<close>

text \<open>
  A string is a list of characters with code points below 256. On these
  \<^verbatim>\<open>toLowerCase\<close> changes an ASCII capital into its small letter; the capitals it changes
  above code point 127 stay above 127, where every character is an invalid digit before
  and after, so they are left as they are.
\<close>

definition toLowerCase_char :: "char \<Rightarrow> char" where
  "toLowerCase_char ch =
     (if 65 \<le> (of_char ch :: nat) \<and> (of_char ch :: nat) \<le> 90
      then char_of (of_char ch + (32 :: nat)) else ch)"

definition toLowerCase :: "string \<Rightarrow> string" where
  "toLowerCase str = map toLowerCase_char str"

text \<open>
  The body of the \<^verbatim>\<open>for (const ch of ...)\<close> loop, on the accumulator \<open>result\<close>:
  \<^verbatim>\<open>'0'\<close> is code 48, \<^verbatim>\<open>'9'\<close> 57, \<^verbatim>\<open>'a'\<close> 97, \<^verbatim>\<open>'z'\<close> 122.
\<close>

fun parse_loop :: "int \<Rightarrow> int \<Rightarrow> string \<Rightarrow> error + int" where
  "parse_loop b result [] = Inr result"
| "parse_loop b result (ch # rest) =
     (let code = int (of_char ch);
          digit = (if 48 \<le> code \<and> code \<le> 57 then Inr (code - 48)
                   else if 97 \<le> code \<and> code \<le> 122 then Inr (code - 87)
                   else Inl InvalidDigit)
      in case digit of
           Inl e \<Rightarrow> Inl e
         | Inr digit \<Rightarrow>
             if digit \<ge> b then Inl DigitOutOfRange
             else parse_loop b (result * b + digit) rest)"

definition parseBigInt :: "string \<Rightarrow> int \<Rightarrow> error + int" where
  "parseBigInt str base = parse_loop base 0 (toLowerCase str)"

section \<open>The test case and its points\<close>

text \<open>
  \<^verbatim>\<open>BigInt(xStr)\<close> on a property key, which is always a string: surrounding white space
  is dropped, the empty string is \<^verbatim>\<open>0n\<close>, then either an unsigned literal with prefix
  \<^verbatim>\<open>0x\<close>, \<^verbatim>\<open>0o\<close> or \<^verbatim>\<open>0b\<close>, or decimal digits with an optional sign; anything else is a
  SyntaxError. The digits are read by the loop of \<open>parseBigInt\<close>, which is the same
  positional reading.
\<close>

definition is_StrWhiteSpaceChar :: "char \<Rightarrow> bool" where
  "is_StrWhiteSpaceChar ch \<longleftrightarrow> (of_char ch :: nat) \<in> {9, 10, 11, 12, 13, 32, 160}"

definition trim :: "string \<Rightarrow> string" where
  "trim str = rev (dropWhile is_StrWhiteSpaceChar (rev (dropWhile is_StrWhiteSpaceChar str)))"

definition digits_in_radix :: "int \<Rightarrow> string \<Rightarrow> error + int" where
  "digits_in_radix radix ds =
     (if ds = [] then Inl SyntaxError
      else case parse_loop radix 0 (toLowerCase ds) of
             Inl e \<Rightarrow> Inl SyntaxError
           | Inr v \<Rightarrow> Inr v)"

definition signed_decimal :: "string \<Rightarrow> error + int" where
  "signed_decimal s =
     (case s of
        [] \<Rightarrow> Inl SyntaxError
      | c # ds \<Rightarrow>
          if c = CHR ''+'' then digits_in_radix 10 ds
          else if c = CHR ''-'' then
            (case digits_in_radix 10 ds of Inl e \<Rightarrow> Inl e | Inr v \<Rightarrow> Inr (- v))
          else digits_in_radix 10 s)"

definition BigInt_of_string :: "string \<Rightarrow> error + int" where
  "BigInt_of_string str =
     (let s = trim str in
      if s = [] then Inr 0
      else case s of
        c0 # c1 # ds \<Rightarrow>
          if c0 = CHR ''0'' \<and> (c1 = CHR ''x'' \<or> c1 = CHR ''X'') then digits_in_radix 16 ds
          else if c0 = CHR ''0'' \<and> (c1 = CHR ''o'' \<or> c1 = CHR ''O'') then digits_in_radix 8 ds
          else if c0 = CHR ''0'' \<and> (c1 = CHR ''b'' \<or> c1 = CHR ''B'') then digits_in_radix 2 ds
          else signed_decimal s
      | _ \<Rightarrow> signed_decimal s)"

text \<open>
  A property key is an array index when it is the canonical decimal form of an integer
  below \<open>2\<^sup>3\<^sup>2 - 1\<close>: digits only, no leading zero.
\<close>

definition array_index :: "string \<Rightarrow> int option" where
  "array_index key =
     (case parse_loop 10 0 key of
        Inl e \<Rightarrow> None
      | Inr v \<Rightarrow>
          if key \<noteq> [] \<and> (key = ''0'' \<or> hd key \<noteq> CHR ''0'') \<and> v < 4294967295
          then Some v else None)"

text \<open>
  An object is the list of its own properties in the order of their creation (for an
  object read by \<^verbatim>\<open>JSON.parse\<close>, the order of the text), with distinct keys.
  \<^verbatim>\<open>Object.entries\<close>, and the rest pattern \<^verbatim>\<open>...pointsRaw\<close> before it, enumerate the own
  properties as the language prescribes: first the keys that are array indices, in
  ascending numeric order, then the other strings in the order of their creation.
\<close>

definition Object_entries :: "(string \<times> 'a) list \<Rightarrow> (string \<times> 'a) list" where
  "Object_entries props =
     map snd (sort_key fst
       (List.map_filter (\<lambda>p. map_option (\<lambda>i. (i, p)) (array_index (fst p))) props))
     @ filter (\<lambda>p. array_index (fst p) = None) props"

text \<open>
  A share is the object \<^verbatim>\<open>{ base, value }\<close>: the radix, which is \<^verbatim>\<open>Number(base)\<close> and
  taken to be an integer, and the digit string. A point is the object \<^verbatim>\<open>{ x, y }\<close>.
  A test case is \<^verbatim>\<open>keys.k\<close>, an integer, and the properties other than \<^verbatim>\<open>keys\<close>.
\<close>

type_synonym share = "int \<times> string"

type_synonym point = "int \<times> int"

record testcase =
  keys_k :: int
  pointsRaw :: "(string \<times> share) list"

text \<open>
  The callback of \<^verbatim>\<open>.map\<close> runs on every entry, in order, before \<^verbatim>\<open>.slice\<close>: it reads
  the key, then the digit string, and the first throw ends the whole computation.
\<close>

fun map_entries :: "(string \<times> share) list \<Rightarrow> error + point list" where
  "map_entries [] = Inr []"
| "map_entries ((xStr, (base, digits)) # rest) =
     (case BigInt_of_string xStr of
        Inl e \<Rightarrow> Inl e
      | Inr x \<Rightarrow>
          (case parseBigInt digits base of
             Inl e \<Rightarrow> Inl e
           | Inr y \<Rightarrow>
               (case map_entries rest of
                  Inl e \<Rightarrow> Inl e
                | Inr ps \<Rightarrow> Inr ((x, y) # ps))))"

text \<open>\<^verbatim>\<open>.slice(0, k)\<close>: a negative \<open>k\<close> counts from the end of the array.\<close>

definition slice_0 :: "'a list \<Rightarrow> int \<Rightarrow> 'a list" where
  "slice_0 xs k = (if k < 0 then take (nat (int (length xs) + k)) xs else take (nat k) xs)"

text \<open>\<^verbatim>\<open>entries[i]\<close> is \<^verbatim>\<open>undefined\<close> out of range; reading a field of it is a TypeError.\<close>

definition at_index :: "'a list \<Rightarrow> nat \<Rightarrow> 'a option" where
  "at_index xs i = (if i < length xs then Some (xs ! i) else None)"

section \<open>Lagrange interpolation at zero\<close>

text \<open>The loop over \<open>j\<close>, on the running product \<open>Li\<close>.\<close>

function inner_loop ::
  "point list \<Rightarrow> int \<Rightarrow> nat \<Rightarrow> int \<Rightarrow> nat \<Rightarrow> rational \<Rightarrow> error + rational" where
  "inner_loop entries k i xi j Li =
     (if int j < k then
        (if j = i then inner_loop entries k i xi (Suc j) Li
         else
           case at_index entries j of
             None \<Rightarrow> Inl TypeError
           | Some (xj, yj) \<Rightarrow>
               (case Rational (- xj) (xi - xj) of
                  Inl e \<Rightarrow> Inl e
                | Inr factor \<Rightarrow>
                    (case Rational_multiply Li factor of
                       Inl e \<Rightarrow> Inl e
                     | Inr Li' \<Rightarrow> inner_loop entries k i xi (Suc j) Li')))
      else Inr Li)"
  by pat_completeness auto
termination
  by (relation "measure (\<lambda>(entries, k, i, xi, j, Li). nat (k - int j))") auto

text \<open>The loop over \<open>i\<close>, on the running sum \<open>c\<close>.\<close>

function outer_loop :: "point list \<Rightarrow> int \<Rightarrow> nat \<Rightarrow> rational \<Rightarrow> error + rational" where
  "outer_loop entries k i c =
     (if int i < k then
        (case at_index entries i of
           None \<Rightarrow> Inl TypeError
         | Some (xi, yi) \<Rightarrow>
             (case Rational 1 1 of
                Inl e \<Rightarrow> Inl e
              | Inr one \<Rightarrow>
                  (case inner_loop entries k i xi 0 one of
                     Inl e \<Rightarrow> Inl e
                   | Inr Li \<Rightarrow>
                       (case Rational yi 1 of
                          Inl e \<Rightarrow> Inl e
                        | Inr ry \<Rightarrow>
                            (case Rational_multiply Li ry of
                               Inl e \<Rightarrow> Inl e
                             | Inr summand \<Rightarrow>
                                 (case Rational_add c summand of
                                    Inl e \<Rightarrow> Inl e
                                  | Inr c' \<Rightarrow> outer_loop entries k (Suc i) c'))))))
      else Inr c)"
  by pat_completeness auto
termination
  by (relation "measure (\<lambda>(entries, k, i, c). nat (k - int i))") auto

text \<open>
  Lines 91 to 107 of \<^verbatim>\<open>computeConstantTerm\<close>, the part the specification calls
  \<^verbatim>\<open>reconstruct\<close>: the sum from \<open>0/1\<close>, the two loops, the narrowing to an integer.
\<close>

definition reconstruct :: "point list \<Rightarrow> int \<Rightarrow> error + int" where
  "reconstruct entries k =
     (case Rational 0 1 of
        Inl e \<Rightarrow> Inl e
      | Inr zero \<Rightarrow>
          (case outer_loop entries k 0 zero of
             Inl e \<Rightarrow> Inl e
           | Inr c \<Rightarrow> Rational_toBigInt c))"

definition computeConstantTerm :: "testcase \<Rightarrow> error + int" where
  "computeConstantTerm tc =
     (case map_entries (Object_entries (pointsRaw tc)) of
        Inl e \<Rightarrow> Inl e
      | Inr all_points \<Rightarrow> reconstruct (slice_0 all_points (keys_k tc)) (keys_k tc))"

section \<open>Notions of the specification\<close>

text \<open>The fraction a Rational object stands for.\<close>

definition rat_of :: "rational \<Rightarrow> rat" where
  "rat_of r = Fract (r_n r) (r_d r)"

text \<open>
  The reduction invariant in the specification's words: a positive denominator, and
  numerator and denominator without a common divisor.
\<close>

definition reduced :: "rational \<Rightarrow> bool" where
  "reduced r \<longleftrightarrow> r_d r > 0 \<and> gcd \<bar>r_n r\<bar> (r_d r) = 1"

text \<open>The factor of the product for the pair of indices i, j.\<close>

definition basis_factor :: "point list \<Rightarrow> int \<Rightarrow> nat \<Rightarrow> rat" where
  "basis_factor es xi j = Fract (- fst (es ! j)) (xi - fst (es ! j))"

text \<open>
  The value of Lagrange's formula at zero on the first \<open>kn\<close> points of a list:
  the basis value of index \<open>i\<close>, and the weighted sum.
\<close>

definition basis_at_zero :: "point list \<Rightarrow> nat \<Rightarrow> nat \<Rightarrow> rat" where
  "basis_at_zero es kn i = (\<Prod>j \<in> {0..<kn} - {i}. basis_factor es (fst (es ! i)) j)"

definition lagrange_sum :: "point list \<Rightarrow> nat \<Rightarrow> rat" where
  "lagrange_sum es kn = (\<Sum>i = 0..<kn. of_int (snd (es ! i)) * basis_at_zero es kn i)"

definition distinct_x :: "point list \<Rightarrow> nat \<Rightarrow> bool" where
  "distinct_x es kn \<longleftrightarrow> (\<forall>a < kn. \<forall>b < kn. a \<noteq> b \<longrightarrow> fst (es ! a) \<noteq> fst (es ! b))"

text \<open>
  A polynomial is the list of its coefficients, constant term first; a list of length at
  most \<open>k\<close> is a polynomial of degree below \<open>k\<close>.
\<close>

fun poly_eval :: "'a::comm_ring_1 list \<Rightarrow> 'a \<Rightarrow> 'a" where
  "poly_eval [] x = 0"
| "poly_eval (c # cs) x = c + x * poly_eval cs x"

text \<open>
  Lagrange's basis over a finite set of nodes \<open>S\<close>: the product of the \<open>t - x'\<close> over
  the nodes \<open>x'\<close>, and the basis function of the node \<open>x\<close> at the point \<open>t\<close>.
\<close>

definition node_poly :: "'a::field set \<Rightarrow> 'a \<Rightarrow> 'a" where
  "node_poly S t = (\<Prod>x' \<in> S. t - x')"

definition basis :: "'a::field set \<Rightarrow> 'a \<Rightarrow> 'a \<Rightarrow> 'a" where
  "basis S x t = node_poly (S - {x}) t / node_poly (S - {x}) x"

text \<open>Lagrange's formula at zero on a finite set of points with distinct abscissas.\<close>

definition lagrange_set :: "point set \<Rightarrow> rat" where
  "lagrange_set A =
     (\<Sum>p \<in> A. of_int (snd p) * basis ((\<lambda>q. of_int (fst q)) ` A) (of_int (fst p)) 0)"

text \<open>
  The value of a digit in the specification's words: \<^verbatim>\<open>'0'\<close> to \<^verbatim>\<open>'9'\<close> are 0 to 9, a
  letter, small or capital, is 10 to 35, any other character is no digit.
\<close>

definition digit_of :: "char \<Rightarrow> int option" where
  "digit_of ch =
     (let code = int (of_char ch) in
      if 48 \<le> code \<and> code \<le> 57 then Some (code - 48)
      else if 97 \<le> code \<and> code \<le> 122 then Some (code - 87)
      else if 65 \<le> code \<and> code \<le> 90 then Some (code - 55)
      else None)"

text \<open>Horner's rule on a list of digit values, most significant first.\<close>

definition horner :: "int \<Rightarrow> int list \<Rightarrow> int" where
  "horner radix ds = foldl (\<lambda>result digit. result * radix + digit) 0 ds"

text \<open>A character that stops the parser: no digit, or a digit that the radix excludes.\<close>

definition offending :: "int \<Rightarrow> char \<Rightarrow> bool" where
  "offending radix ch = (case digit_of ch of None \<Rightarrow> True | Some v \<Rightarrow> v \<ge> radix)"



section \<open>The gcd and the constructor\<close>

declare inner_loop.simps [simp del] outer_loop.simps [simp del]

lemma bigint_rem_nonneg: "0 \<le> a \<Longrightarrow> 0 < b \<Longrightarrow> bigint_rem a b = a mod b"
  by (cases "a = 0") (simp_all add: bigint_rem_def)

lemma gcd_loop_eq: "0 \<le> a \<Longrightarrow> 0 \<le> b \<Longrightarrow> gcd_loop a b = gcd a b"
proof (induction a b rule: gcd_loop.induct)
  case (1 a b)
  show ?case
  proof (cases "b = 0")
    case True
    with "1.prems" show ?thesis by simp
  next
    case False
    with "1.prems" have b: "0 < b" by simp
    have r: "bigint_rem a b = a mod b"
      using "1.prems" b by (simp add: bigint_rem_nonneg)
    have "gcd_loop a b = gcd_loop b (a mod b)"
      using False r by simp
    also have "\<dots> = gcd b (a mod b)"
      using "1.IH" [OF False] "1.prems" b r by simp
    also have "\<dots> = gcd a b"
      using gcd_red_int [of a b] by simp
    finally show ?thesis .
  qed
qed

lemma gcd_js_eq: "gcd_js a b = gcd a b"
proof -
  have "gcd_js a b = gcd \<bar>a\<bar> \<bar>b\<bar>"
    unfolding gcd_js_def by (subst gcd_loop_eq) (auto simp: abs_if)
  then show ?thesis by simp
qed

lemma bigint_div_exact:
  assumes "0 < g" and "g dvd a"
  shows "bigint_div a g = Inr (a div g)"
proof -
  from assms(2) obtain q where a: "a = g * q" ..
  have "\<bar>a\<bar> div \<bar>g\<bar> = \<bar>q\<bar>"
    using assms(1) by (simp add: a abs_mult)
  moreover have "sgn a = sgn q"
    using assms(1) by (simp add: a sgn_mult)
  moreover have "a div g = q"
    using assms(1) by (simp add: a)
  ultimately show ?thesis
    using assms(1) by (simp add: bigint_div_def sgn_mult_abs)
qed

lemma Rational_pos:
  assumes "0 < b"
  shows "Rational a b = Inr \<lparr>r_n = a div gcd a b, r_d = b div gcd a b\<rparr>"
proof -
  have g: "0 < gcd a b" using assms by (simp add: gcd_pos_int)
  show ?thesis
    using assms g by (simp add: Rational_def Let_def gcd_js_eq bigint_div_exact)
qed

lemma Rational_neg:
  assumes "b < 0"
  shows "Rational a b = Rational (- a) (- b)"
  using assms by (simp add: Rational_def Let_def)

lemma Rational_zero: "Rational a 0 = Inl DivisionByZero"
  by (simp add: Rational_def)

lemma reduced_div_gcd:
  assumes "0 < b"
  shows "reduced \<lparr>r_n = a div gcd a b, r_d = b div gcd a b\<rparr>"
proof -
  have g: "0 < gcd a b" using assms by (simp add: gcd_pos_int)
  have "gcd a b \<le> b" using assms by (simp add: gcd_le2_int)
  then have "0 < b div gcd a b"
    using g by (simp add: pos_imp_zdiv_pos_iff)
  moreover have "coprime (a div gcd a b) (b div gcd a b)"
    using assms by (intro div_gcd_coprime) simp
  ultimately show ?thesis
    by (simp add: reduced_def coprime_iff_gcd_eq_1)
qed

lemma Rational_ok:
  assumes "b \<noteq> 0"
  shows "\<exists>r. Rational a b = Inr r \<and> reduced r \<and> rat_of r = Fract a b"
proof (cases "0 < b")
  case True
  then show ?thesis
    by (simp add: Rational_pos reduced_div_gcd rat_of_def Fract_coprime)
next
  case False
  with assms have nb: "0 < - b" and b: "b < 0" by simp_all
  have "Fract (- a div gcd (- a) (- b)) (- b div gcd (- a) (- b)) = Fract (- a) (- b)"
    by (rule Fract_coprime)
  then show ?thesis
    using reduced_div_gcd [OF nb, of "- a"]
    by (simp add: Rational_neg [OF b] Rational_pos [OF nb] rat_of_def)
qed

lemma reduced_quotient_of:
  assumes "reduced r"
  shows "quotient_of (rat_of r) = (r_n r, r_d r)"
  using assms
  by (simp add: reduced_def rat_of_def quotient_of_Fract coprime_iff_gcd_eq_1)

lemma reduced_unique:
  assumes "reduced r" and "reduced s" and "rat_of r = rat_of s"
  shows "r = s"
proof -
  have "(r_n r, r_d r) = (r_n s, r_d s)"
    using assms by (metis reduced_quotient_of)
  then show ?thesis by simp
qed

section \<open>Arithmetic of Rational objects\<close>

lemma reduced_denom_nonzero: "reduced r \<Longrightarrow> r_d r \<noteq> 0"
  by (simp add: reduced_def)

lemma Rational_multiply_ok:
  assumes "reduced r" and "reduced s"
  shows "\<exists>t. Rational_multiply r s = Inr t \<and> reduced t \<and> rat_of t = rat_of r * rat_of s"
proof -
  have nz: "r_d r * r_d s \<noteq> 0"
    using assms by (simp add: reduced_denom_nonzero)
  have "Fract (r_n r * r_n s) (r_d r * r_d s) = rat_of r * rat_of s"
    by (simp add: rat_of_def)
  then show ?thesis
    using Rational_ok [OF nz, of "r_n r * r_n s"] by (simp add: Rational_multiply_def)
qed

lemma Rational_add_ok:
  assumes "reduced r" and "reduced s"
  shows "\<exists>t. Rational_add r s = Inr t \<and> reduced t \<and> rat_of t = rat_of r + rat_of s"
proof -
  have nz: "r_d r * r_d s \<noteq> 0"
    using assms by (simp add: reduced_denom_nonzero)
  have "Fract (r_n r * r_d s + r_n s * r_d r) (r_d r * r_d s) = rat_of r + rat_of s"
    using assms by (simp add: rat_of_def reduced_denom_nonzero)
  then show ?thesis
    using Rational_ok [OF nz, of "r_n r * r_d s + r_n s * r_d r"]
    by (simp add: Rational_add_def)
qed

lemma Rational_int_ok:
  "\<exists>t. Rational v 1 = Inr t \<and> reduced t \<and> rat_of t = of_int v"
  using Rational_ok [of 1 v] by (simp add: Fract_of_int_eq)

lemma toBigInt_integral:
  assumes "reduced c" and "rat_of c = of_int v"
  shows "Rational_toBigInt c = Inr v"
proof -
  have "quotient_of (rat_of c) = (v, 1)"
    by (simp add: assms(2))
  with reduced_quotient_of [OF assms(1)] have "r_n c = v" and "r_d c = 1"
    by simp_all
  then show ?thesis by (simp add: Rational_toBigInt_def)
qed

lemma toBigInt_not_integral:
  assumes "reduced c" and "rat_of c \<notin> \<int>"
  shows "Rational_toBigInt c = Inl NonIntegralResult"
proof -
  have "r_d c \<noteq> 1"
  proof
    assume "r_d c = 1"
    then have "rat_of c = of_int (r_n c)"
      by (simp add: rat_of_def Fract_of_int_eq)
    with assms(2) show False by simp
  qed
  then show ?thesis by (simp add: Rational_toBigInt_def)
qed

section \<open>The two loops\<close>

lemma inner_loop_ok:
  assumes "kn \<le> length es" and "reduced Li" and "j \<le> kn"
    and "\<forall>j'. j \<le> j' \<and> j' < kn \<and> j' \<noteq> i \<longrightarrow> fst (es ! j') \<noteq> xi"
  shows "\<exists>r. inner_loop es (int kn) i xi j Li = Inr r \<and> reduced r \<and>
           rat_of r = rat_of Li * (\<Prod>j' \<in> {j..<kn} - {i}. basis_factor es xi j')"
  using assms(2-4)
proof (induction "kn - j" arbitrary: j Li)
  case 0
  then have "j = kn" by simp
  then show ?case
    using "0.prems"(1) by (subst inner_loop.simps) simp
next
  case (Suc m)
  then have j: "j < kn" and m: "m = kn - Suc j" by simp_all
  have later: "\<forall>j'. Suc j \<le> j' \<and> j' < kn \<and> j' \<noteq> i \<longrightarrow> fst (es ! j') \<noteq> xi"
    using Suc.prems(3) by simp
  show ?case
  proof (cases "j = i")
    case True
    have set_eq: "{j..<kn} - {i} = {Suc j..<kn} - {i}"
      using True by auto
    have "inner_loop es (int kn) i xi j Li = inner_loop es (int kn) i xi (Suc j) Li"
      using j True by (subst inner_loop.simps) simp
    then show ?thesis
      using Suc.hyps(1) [OF m Suc.prems(1) _ later] j set_eq by simp
  next
    case False
    obtain xj yj where e: "es ! j = (xj, yj)" by (cases "es ! j")
    have at: "at_index es j = Some (xj, yj)"
      using j assms(1) e by (simp add: at_index_def)
    have ne: "xi - xj \<noteq> 0"
      using Suc.prems(3) j False e by auto
    obtain f where f: "Rational (- xj) (xi - xj) = Inr f" "reduced f"
      "rat_of f = Fract (- xj) (xi - xj)"
      using Rational_ok [OF ne] by blast
    obtain Li' where Li': "Rational_multiply Li f = Inr Li'" "reduced Li'"
      "rat_of Li' = rat_of Li * rat_of f"
      using Rational_multiply_ok [OF Suc.prems(1) f(2)] by blast
    have step: "inner_loop es (int kn) i xi j Li = inner_loop es (int kn) i xi (Suc j) Li'"
      using j False at f(1) Li'(1) by (subst inner_loop.simps) simp
    have set_eq: "{j..<kn} - {i} = insert j ({Suc j..<kn} - {i})"
      using j False by auto
    have prod_eq: "(\<Prod>j' \<in> {j..<kn} - {i}. basis_factor es xi j') =
        basis_factor es xi j * (\<Prod>j' \<in> {Suc j..<kn} - {i}. basis_factor es xi j')"
      unfolding set_eq by (subst prod.insert) simp_all
    have bf: "basis_factor es xi j = rat_of f"
      by (simp add: basis_factor_def e f(3))
    from Suc.hyps(1) [OF m Li'(2) _ later] j
    obtain r where r: "inner_loop es (int kn) i xi (Suc j) Li' = Inr r" "reduced r"
      "rat_of r = rat_of Li' * (\<Prod>j' \<in> {Suc j..<kn} - {i}. basis_factor es xi j')"
      by auto
    show ?thesis
      using r step by (simp add: prod_eq bf Li'(3) mult.assoc)
  qed
qed

lemma inner_loop_zero_denominator:
  assumes "kn \<le> length es" and "reduced Li" and "j \<le> kn"
    and "\<exists>j'. j \<le> j' \<and> j' < kn \<and> j' \<noteq> i \<and> fst (es ! j') = xi"
  shows "inner_loop es (int kn) i xi j Li = Inl DivisionByZero"
  using assms(2-4)
proof (induction "kn - j" arbitrary: j Li)
  case 0
  then show ?case by auto
next
  case (Suc m)
  then have j: "j < kn" and m: "m = kn - Suc j" by simp_all
  show ?case
  proof (cases "j = i")
    case True
    have later: "\<exists>j'. Suc j \<le> j' \<and> j' < kn \<and> j' \<noteq> i \<and> fst (es ! j') = xi"
      using Suc.prems(3) True by (metis Suc_leI le_neq_implies_less)
    have "inner_loop es (int kn) i xi j Li = inner_loop es (int kn) i xi (Suc j) Li"
      using j True by (subst inner_loop.simps) simp
    then show ?thesis
      using Suc.hyps(1) [OF m Suc.prems(1) _ later] j by simp
  next
    case False
    obtain xj yj where e: "es ! j = (xj, yj)" by (cases "es ! j")
    have at: "at_index es j = Some (xj, yj)"
      using j assms(1) e by (simp add: at_index_def)
    show ?thesis
    proof (cases "xj = xi")
      case True
      then show ?thesis
        using j False at by (subst inner_loop.simps) (simp add: Rational_zero)
    next
      case ne: False
      then have later: "\<exists>j'. Suc j \<le> j' \<and> j' < kn \<and> j' \<noteq> i \<and> fst (es ! j') = xi"
        using Suc.prems(3) e by (metis Suc_leI fst_conv le_neq_implies_less)
      from ne have nz: "xi - xj \<noteq> 0" by simp
      obtain f where f: "Rational (- xj) (xi - xj) = Inr f" "reduced f"
        using Rational_ok [OF nz] by blast
      obtain Li' where Li': "Rational_multiply Li f = Inr Li'" "reduced Li'"
        using Rational_multiply_ok [OF Suc.prems(1) f(2)] by blast
      have "inner_loop es (int kn) i xi j Li = inner_loop es (int kn) i xi (Suc j) Li'"
        using j False at f(1) Li'(1) by (subst inner_loop.simps) simp
      then show ?thesis
        using Suc.hyps(1) [OF m Li'(2) _ later] j by simp
    qed
  qed
qed

lemma outer_loop_step:
  assumes "kn \<le> length es" and "reduced c" and "i < kn"
    and "\<forall>j < kn. j \<noteq> i \<longrightarrow> fst (es ! j) \<noteq> fst (es ! i)"
  shows "\<exists>c'. outer_loop es (int kn) i c = outer_loop es (int kn) (Suc i) c' \<and> reduced c' \<and>
           rat_of c' = rat_of c + of_int (snd (es ! i)) * basis_at_zero es kn i"
proof -
  obtain xi yi where e: "es ! i = (xi, yi)" by (cases "es ! i")
  have at: "at_index es i = Some (xi, yi)"
    using assms(1,3) e by (simp add: at_index_def)
  obtain one where one: "Rational 1 1 = Inr one" "reduced one" "rat_of one = 1"
    using Rational_int_ok [of 1] by auto
  have "\<forall>j'. 0 \<le> j' \<and> j' < kn \<and> j' \<noteq> i \<longrightarrow> fst (es ! j') \<noteq> xi"
    using assms(4) e by simp
  from inner_loop_ok [OF assms(1) one(2) _ this]
  obtain Li where Li: "inner_loop es (int kn) i xi 0 one = Inr Li" "reduced Li"
    "rat_of Li = basis_at_zero es kn i"
    by (auto simp: basis_at_zero_def e one(3))
  obtain ry where ry: "Rational yi 1 = Inr ry" "reduced ry" "rat_of ry = of_int yi"
    using Rational_int_ok [of yi] by auto
  obtain s where s: "Rational_multiply Li ry = Inr s" "reduced s"
    "rat_of s = rat_of Li * rat_of ry"
    using Rational_multiply_ok [OF Li(2) ry(2)] by blast
  obtain c' where c': "Rational_add c s = Inr c'" "reduced c'"
    "rat_of c' = rat_of c + rat_of s"
    using Rational_add_ok [OF assms(2) s(2)] by blast
  have "outer_loop es (int kn) i c = outer_loop es (int kn) (Suc i) c'"
    using assms(3) at one(1) Li(1) ry(1) s(1) c'(1) by (subst outer_loop.simps) simp
  moreover have "rat_of c' = rat_of c + of_int (snd (es ! i)) * basis_at_zero es kn i"
    by (simp add: c'(3) s(3) Li(3) ry(3) e mult.commute)
  ultimately show ?thesis
    using c'(2) by blast
qed

lemma outer_loop_ok:
  assumes "kn \<le> length es" and "reduced c" and "i \<le> kn" and "distinct_x es kn"
  shows "\<exists>r. outer_loop es (int kn) i c = Inr r \<and> reduced r \<and>
           rat_of r = rat_of c + (\<Sum>i' = i..<kn. of_int (snd (es ! i')) * basis_at_zero es kn i')"
  using assms(2,3)
proof (induction "kn - i" arbitrary: i c)
  case 0
  then have "i = kn" by simp
  then show ?case
    using "0.prems"(1) by (subst outer_loop.simps) simp
next
  case (Suc m)
  then have i: "i < kn" and m: "m = kn - Suc i" by simp_all
  have "\<forall>j < kn. j \<noteq> i \<longrightarrow> fst (es ! j) \<noteq> fst (es ! i)"
    using assms(4) i by (simp add: distinct_x_def)
  from outer_loop_step [OF assms(1) Suc.prems(1) i this]
  obtain c' where c': "outer_loop es (int kn) i c = outer_loop es (int kn) (Suc i) c'"
    "reduced c'" "rat_of c' = rat_of c + of_int (snd (es ! i)) * basis_at_zero es kn i"
    by blast
  from Suc.hyps(1) [OF m c'(2)] i
  obtain r where r: "outer_loop es (int kn) (Suc i) c' = Inr r" "reduced r"
    "rat_of r = rat_of c' +
       (\<Sum>i' = Suc i..<kn. of_int (snd (es ! i')) * basis_at_zero es kn i')"
    by auto
  have "(\<Sum>i' = i..<kn. of_int (snd (es ! i')) * basis_at_zero es kn i') =
      of_int (snd (es ! i)) * basis_at_zero es kn i +
      (\<Sum>i' = Suc i..<kn. of_int (snd (es ! i')) * basis_at_zero es kn i')"
    using i by (simp add: sum.atLeast_Suc_lessThan)
  then show ?case
    using r c' by simp
qed

lemma outer_loop_zero_denominator:
  assumes "kn \<le> length es" and "reduced c" and "i \<le> kn"
    and "\<exists>a b. i \<le> a \<and> a < kn \<and> b < kn \<and> a \<noteq> b \<and> fst (es ! a) = fst (es ! b)"
  shows "outer_loop es (int kn) i c = Inl DivisionByZero"
  using assms(2-4)
proof (induction "kn - i" arbitrary: i c)
  case 0
  then show ?case by auto
next
  case (Suc m)
  then have i: "i < kn" and m: "m = kn - Suc i" by simp_all
  show ?case
  proof (cases "\<exists>j < kn. j \<noteq> i \<and> fst (es ! j) = fst (es ! i)")
    case True
    obtain xi yi where e: "es ! i = (xi, yi)" by (cases "es ! i")
    have at: "at_index es i = Some (xi, yi)"
      using assms(1) i e by (simp add: at_index_def)
    obtain one where one: "Rational 1 1 = Inr one" "reduced one"
      using Rational_int_ok [of 1] by auto
    have "\<exists>j'. 0 \<le> j' \<and> j' < kn \<and> j' \<noteq> i \<and> fst (es ! j') = xi"
      using True e by auto
    from inner_loop_zero_denominator [OF assms(1) one(2) _ this]
    have "inner_loop es (int kn) i xi 0 one = Inl DivisionByZero"
      by simp
    then show ?thesis
      using i at one(1) by (subst outer_loop.simps) simp
  next
    case False
    then have nodup: "\<forall>j < kn. j \<noteq> i \<longrightarrow> fst (es ! j) \<noteq> fst (es ! i)"
      by blast
    from outer_loop_step [OF assms(1) Suc.prems(1) i nodup]
    obtain c' where c': "outer_loop es (int kn) i c = outer_loop es (int kn) (Suc i) c'"
      "reduced c'"
      by blast
    from Suc.prems(3) obtain a b
      where ab: "i \<le> a" "a < kn" "b < kn" "a \<noteq> b" "fst (es ! a) = fst (es ! b)"
      by blast
    have "a \<noteq> i"
      using False ab by metis
    then have later: "\<exists>a b. Suc i \<le> a \<and> a < kn \<and> b < kn \<and> a \<noteq> b \<and> fst (es ! a) = fst (es ! b)"
      using ab by (intro exI [of _ a] exI [of _ b]) simp
    show ?thesis
      using Suc.hyps(1) [OF m c'(2) _ later] i c'(1) by simp
  qed
qed

text \<open>What \<open>reconstruct\<close> returns on a list that has at least \<open>kn\<close> points.\<close>

lemma reconstruct_duplicate:
  assumes "kn \<le> length es" and "\<not> distinct_x es kn"
  shows "reconstruct es (int kn) = Inl DivisionByZero"
proof -
  obtain zero where zero: "Rational 0 1 = Inr zero" "reduced zero"
    using Rational_int_ok [of 0] by auto
  have "\<exists>a b. 0 \<le> a \<and> a < kn \<and> b < kn \<and> a \<noteq> b \<and> fst (es ! a) = fst (es ! b)"
    using assms(2) by (auto simp: distinct_x_def)
  from outer_loop_zero_denominator [OF assms(1) zero(2) _ this]
  show ?thesis
    by (simp add: reconstruct_def zero(1))
qed

lemma reconstruct_distinct:
  assumes "kn \<le> length es" and "distinct_x es kn"
  shows "reconstruct es (int kn) =
    (if lagrange_sum es kn \<in> \<int> then Inr \<lfloor>lagrange_sum es kn\<rfloor> else Inl NonIntegralResult)"
proof -
  obtain zero where zero: "Rational 0 1 = Inr zero" "reduced zero" "rat_of zero = 0"
    using Rational_int_ok [of 0] by auto
  from outer_loop_ok [OF assms(1) zero(2) _ assms(2), of 0]
  obtain c where c: "outer_loop es (int kn) 0 zero = Inr c" "reduced c"
    "rat_of c = lagrange_sum es kn"
    by (auto simp: lagrange_sum_def zero(3))
  have r: "reconstruct es (int kn) = Rational_toBigInt c"
    by (simp add: reconstruct_def zero(1) c(1))
  show ?thesis
  proof (cases "lagrange_sum es kn \<in> \<int>")
    case True
    then obtain v where v: "lagrange_sum es kn = of_int v"
      by (auto elim: Ints_cases)
    then show ?thesis
      using toBigInt_integral [OF c(2), of v] c(3) r by simp
  next
    case False
    then show ?thesis
      using toBigInt_not_integral [OF c(2)] c(3) r by simp
  qed
qed

section \<open>Lagrange's formula\<close>

lemma node_poly_nonzero: "finite S \<Longrightarrow> a \<notin> S \<Longrightarrow> node_poly S a \<noteq> 0"
  by (auto simp: node_poly_def)

lemma node_poly_insert:
  "finite S \<Longrightarrow> a \<notin> S \<Longrightarrow> node_poly (insert a S) t = (t - a) * node_poly S t"
  by (simp add: node_poly_def)

lemma node_poly_remove:
  assumes "finite S" and "x \<in> S"
  shows "node_poly S t = (t - x) * node_poly (S - {x}) t"
proof -
  have "S = insert x (S - {x})" using assms(2) by auto
  then have "node_poly S t = node_poly (insert x (S - {x})) t" by simp
  also have "\<dots> = (t - x) * node_poly (S - {x}) t"
    using assms(1) by (intro node_poly_insert) auto
  finally show ?thesis .
qed

lemma basis_insert_new:
  assumes "finite S" and "a \<notin> S"
  shows "basis (insert a S) a t = node_poly S t / node_poly S a"
  using assms by (simp add: basis_def)

lemma basis_insert_old:
  assumes "finite S" and "a \<notin> S" and "x \<in> S"
  shows "basis (insert a S) x t = (t - a) / (x - a) * basis S x t"
proof -
  have ne: "x \<noteq> a" using assms by auto
  have eq: "insert a S - {x} = insert a (S - {x})" using ne by auto
  have "a \<notin> S - {x}" using assms(2) by simp
  then show ?thesis
    using assms(1) by (simp add: basis_def eq node_poly_insert)
qed

lemma basis_shift:
  assumes "finite S" and "a \<notin> S" and "x \<in> S"
  shows "(t - a) / (x - a) * basis S x t =
         basis S x t - node_poly S t / node_poly S a * basis S x a"
proof -
  define P where "P = node_poly (S - {x}) t"
  define Q where "Q = node_poly (S - {x}) x"
  define R where "R = node_poly (S - {x}) a"
  have Q: "Q \<noteq> 0"
    unfolding Q_def using assms(1) by (intro node_poly_nonzero) auto
  have R: "R \<noteq> 0"
    unfolding R_def using assms(1,2) by (intro node_poly_nonzero) auto
  have xa: "x - a \<noteq> 0" "a - x \<noteq> 0" using assms(2,3) by auto
  have St: "node_poly S t = (t - x) * P"
    unfolding P_def by (rule node_poly_remove [OF assms(1,3)])
  have Sa: "node_poly S a = (a - x) * R"
    unfolding R_def by (rule node_poly_remove [OF assms(1,3)])
  have "(t - a) / (x - a) * (P / Q) = P / Q - (t - x) * P / ((a - x) * R) * (R / Q)"
    using Q R xa by (simp add: field_simps)
  then show ?thesis
    by (simp add: basis_def St Sa P_def [symmetric] Q_def [symmetric] R_def [symmetric])
qed

lemma basis_sum_one:
  assumes "finite S" and "S \<noteq> {}"
  shows "(\<Sum>x \<in> S. basis S x t) = 1"
  using assms
proof (induction S arbitrary: t rule: finite_ne_induct)
  case (singleton a)
  show ?case by (simp add: basis_def node_poly_def)
next
  case (insert a S)
  have "(\<Sum>x \<in> S. basis (insert a S) x t) =
        (\<Sum>x \<in> S. basis S x t - node_poly S t / node_poly S a * basis S x a)"
  proof (intro sum.cong refl)
    fix x assume x: "x \<in> S"
    have "basis (insert a S) x t = (t - a) / (x - a) * basis S x t"
      using insert.hyps x by (intro basis_insert_old)
    also have "\<dots> = basis S x t - node_poly S t / node_poly S a * basis S x a"
      using insert.hyps x by (intro basis_shift)
    finally show "basis (insert a S) x t =
        basis S x t - node_poly S t / node_poly S a * basis S x a" .
  qed
  also have "\<dots> = (\<Sum>x \<in> S. basis S x t) - node_poly S t / node_poly S a * (\<Sum>x \<in> S. basis S x a)"
    by (simp add: sum_subtractf sum_distrib_left)
  also have "\<dots> = 1 - node_poly S t / node_poly S a"
    by (simp add: insert.IH)
  finally have "(\<Sum>x \<in> S. basis (insert a S) x t) = 1 - node_poly S t / node_poly S a" .
  then show ?case
    using insert.hyps by (simp add: basis_insert_new)
qed

lemma poly_eval_factor:
  "\<exists>q. length q \<le> length cs - 1 \<and> (\<forall>x. poly_eval cs x = poly_eval cs a + (x - a) * poly_eval q x)"
proof (induction cs)
  case Nil
  show ?case by (intro exI [of _ "[]"]) simp
next
  case (Cons c cs)
  then obtain q where q: "length q \<le> length cs - 1"
    "\<And>x. poly_eval cs x = poly_eval cs a + (x - a) * poly_eval q x"
    by blast
  show ?case
  proof (cases "cs = []")
    case True
    then show ?thesis by (intro exI [of _ "[]"]) simp
  next
    case False
    have "\<forall>x. poly_eval (c # cs) x =
        poly_eval (c # cs) a + (x - a) * poly_eval (poly_eval cs a # q) x"
    proof
      fix x
      have "poly_eval (c # cs) x = c + x * (poly_eval cs a + (x - a) * poly_eval q x)"
        using q(2) [of x] by simp
      then show "poly_eval (c # cs) x =
        poly_eval (c # cs) a + (x - a) * poly_eval (poly_eval cs a # q) x"
        by (simp add: algebra_simps)
    qed
    moreover have "length (poly_eval cs a # q) \<le> length (c # cs) - 1"
      using q(1) False by (cases cs) simp_all
    ultimately show ?thesis by blast
  qed
qed

lemma lagrange_interpolation:
  fixes cs :: "'a::field list"
  assumes "finite S" and "length cs \<le> card S"
  shows "(\<Sum>x \<in> S. poly_eval cs x * basis S x t) = poly_eval cs t"
  using assms
proof (induction S arbitrary: cs t rule: finite_induct)
  case empty
  then show ?case by simp
next
  case (insert a S)
  obtain q where q: "length q \<le> length cs - 1"
    "\<And>x. poly_eval cs x = poly_eval cs a + (x - a) * poly_eval q x"
    using poly_eval_factor [of cs a] by blast
  have lq: "length q \<le> card S"
    using q(1) insert.prems insert.hyps by simp
  have one: "(\<Sum>x \<in> insert a S. basis (insert a S) x t) = 1"
    using insert.hyps by (intro basis_sum_one) simp_all
  have rest: "(\<Sum>x \<in> insert a S. (x - a) * poly_eval q x * basis (insert a S) x t) =
      (t - a) * poly_eval q t"
  proof -
    have "(\<Sum>x \<in> insert a S. (x - a) * poly_eval q x * basis (insert a S) x t) =
        (\<Sum>x \<in> S. (x - a) * poly_eval q x * basis (insert a S) x t)"
      using insert.hyps by simp
    also have "\<dots> = (\<Sum>x \<in> S. (t - a) * (poly_eval q x * basis S x t))"
    proof (intro sum.cong refl)
      fix x assume x: "x \<in> S"
      then have "x - a \<noteq> 0" using insert.hyps by auto
      then show "(x - a) * poly_eval q x * basis (insert a S) x t =
          (t - a) * (poly_eval q x * basis S x t)"
        using insert.hyps x by (simp add: basis_insert_old)
    qed
    also have "\<dots> = (t - a) * (\<Sum>x \<in> S. poly_eval q x * basis S x t)"
      by (simp add: sum_distrib_left)
    also have "\<dots> = (t - a) * poly_eval q t"
      using insert.IH [OF lq] by simp
    finally show ?thesis .
  qed
  have "(\<Sum>x \<in> insert a S. poly_eval cs x * basis (insert a S) x t) =
      (\<Sum>x \<in> insert a S. poly_eval cs a * basis (insert a S) x t +
         (x - a) * poly_eval q x * basis (insert a S) x t)"
    by (intro sum.cong refl, subst q(2)) (simp add: algebra_simps)
  also have "\<dots> = poly_eval cs a * (\<Sum>x \<in> insert a S. basis (insert a S) x t) +
      (\<Sum>x \<in> insert a S. (x - a) * poly_eval q x * basis (insert a S) x t)"
    by (simp add: sum.distrib sum_distrib_left)
  also have "\<dots> = poly_eval cs a + (t - a) * poly_eval q t"
    by (simp only: one rest mult_1_right)
  also have "\<dots> = poly_eval cs t"
    using q(2) [of t] by simp
  finally show ?case .
qed

section \<open>From the loops to Lagrange's formula\<close>

lemma distinct_x_iff:
  assumes "kn \<le> length es"
  shows "distinct_x es kn \<longleftrightarrow> distinct (map fst (take kn es))"
  using assms by (auto simp: distinct_x_def distinct_conv_nth)

lemma distinct_x_inj:
  assumes "distinct_x es kn"
  shows "inj_on (\<lambda>i. es ! i) {0..<kn}"
  unfolding inj_on_def using assms by (fastforce simp: distinct_x_def)

lemma distinct_x_inj_fst:
  assumes "distinct_x es kn"
  shows "inj_on (\<lambda>i. (of_int (fst (es ! i)) :: rat)) {0..<kn}"
  unfolding inj_on_def using assms by (fastforce simp: distinct_x_def)

lemma set_take_image:
  assumes "kn \<le> length es"
  shows "set (take kn es) = (\<lambda>i. es ! i) ` {0..<kn}"
  using assms by (auto simp: set_conv_nth image_iff) (metis nth_take)

lemma basis_at_zero_set:
  assumes "distinct_x es kn" and "i < kn"
  shows "basis_at_zero es kn i =
    basis ((\<lambda>j. of_int (fst (es ! j))) ` {0..<kn}) (of_int (fst (es ! i))) 0"
proof -
  let ?X = "\<lambda>j. (of_int (fst (es ! j)) :: rat)"
  have inj: "inj_on ?X {0..<kn}" by (rule distinct_x_inj_fst [OF assms(1)])
  have img: "?X ` {0..<kn} - {?X i} = ?X ` ({0..<kn} - {i})"
    using inj assms(2) by (auto simp: inj_on_def)
  have inj': "inj_on ?X ({0..<kn} - {i})"
    using inj by (rule inj_on_subset) auto
  have "basis_at_zero es kn i = (\<Prod>j \<in> {0..<kn} - {i}. (0 - ?X j) / (?X i - ?X j))"
    by (simp add: basis_at_zero_def basis_factor_def Fract_of_int_quotient)
  also have "\<dots> = (\<Prod>j \<in> {0..<kn} - {i}. 0 - ?X j) / (\<Prod>j \<in> {0..<kn} - {i}. ?X i - ?X j)"
    by (rule prod_dividef)
  also have "\<dots> = node_poly (?X ` ({0..<kn} - {i})) 0 / node_poly (?X ` ({0..<kn} - {i})) (?X i)"
    unfolding node_poly_def by (simp only: prod.reindex [OF inj'] o_def)
  finally show ?thesis
    by (simp add: basis_def img)
qed

lemma lagrange_sum_set:
  assumes "kn \<le> length es" and "distinct_x es kn"
  shows "lagrange_sum es kn = lagrange_set (set (take kn es))"
proof -
  let ?X = "\<lambda>j. (of_int (fst (es ! j)) :: rat)"
  have inj: "inj_on (\<lambda>i. es ! i) {0..<kn}" by (rule distinct_x_inj [OF assms(2)])
  have img: "(\<lambda>q. of_int (fst q)) ` set (take kn es) = ?X ` {0..<kn}"
    by (simp add: set_take_image [OF assms(1)] image_image)
  have "lagrange_sum es kn =
      (\<Sum>i = 0..<kn. of_int (snd (es ! i)) * basis (?X ` {0..<kn}) (?X i) 0)"
    unfolding lagrange_sum_def
    by (intro sum.cong refl) (simp add: basis_at_zero_set [OF assms(2)])
  also have "\<dots> = (\<Sum>p \<in> (\<lambda>i. es ! i) ` {0..<kn}.
      of_int (snd p) * basis (?X ` {0..<kn}) (of_int (fst p)) 0)"
    by (simp only: sum.reindex [OF inj] o_def)
  finally show ?thesis
    unfolding lagrange_set_def img
    by (simp only: set_take_image [OF assms(1)])
qed

lemma of_int_poly_eval:
  "(of_int (poly_eval cs x) :: rat) = poly_eval (map of_int cs) (of_int x)"
  by (induction cs) simp_all

lemma lagrange_set_samples:
  assumes "finite A" and "inj_on fst A" and "length cs \<le> card A"
    and "\<forall>p \<in> A. snd p = poly_eval cs (fst p)"
  shows "lagrange_set A = of_int (poly_eval cs 0)"
proof -
  let ?F = "\<lambda>q :: point. (of_int (fst q) :: rat)"
  have inj: "inj_on ?F A"
    using assms(2) by (auto simp: inj_on_def)
  have card: "card (?F ` A) = card A"
    by (rule card_image [OF inj])
  have "lagrange_set A =
      (\<Sum>p \<in> A. poly_eval (map of_int cs) (?F p) * basis (?F ` A) (?F p) 0)"
    unfolding lagrange_set_def
    using assms(4) by (intro sum.cong refl) (simp add: of_int_poly_eval)
  also have "\<dots> = (\<Sum>x \<in> ?F ` A. poly_eval (map of_int cs) x * basis (?F ` A) x 0)"
    by (simp only: sum.reindex [OF inj] o_def)
  also have "\<dots> = poly_eval (map of_int cs) 0"
    using assms(1,3) card by (intro lagrange_interpolation) simp_all
  finally show ?thesis
    using of_int_poly_eval [of cs 0] by simp
qed

text \<open>The result of \<open>reconstruct\<close> is decided by the set of the first \<open>kn\<close> points.\<close>

lemma reconstruct_set:
  assumes "kn \<le> length es" and "kn \<le> length es'"
    and "set (take kn es) = set (take kn es')"
  shows "reconstruct es (int kn) = reconstruct es' (int kn)"
proof (cases "distinct_x es kn")
  case True
  then have d: "distinct (map fst (take kn es))"
    using distinct_x_iff [OF assms(1)] by simp
  then have "distinct (take kn es)" and inj: "inj_on fst (set (take kn es))"
    by (simp_all add: distinct_map)
  then have "card (set (take kn es)) = kn"
    using assms(1) by (simp add: distinct_card)
  then have "card (set (take kn es')) = length (take kn es')"
    using assms(2,3) by simp
  then have "distinct (take kn es')"
    by (rule card_distinct)
  then have "distinct (map fst (take kn es'))"
    using inj assms(3) by (simp add: distinct_map)
  then have True': "distinct_x es' kn"
    using distinct_x_iff [OF assms(2)] by simp
  show ?thesis
    by (simp add: reconstruct_distinct [OF assms(1) True] reconstruct_distinct [OF assms(2) True']
        lagrange_sum_set [OF assms(1) True] lagrange_sum_set [OF assms(2) True'] assms(3))
next
  case False
  have "\<not> distinct_x es' kn"
  proof
    assume d': "distinct_x es' kn"
    then have d: "distinct (map fst (take kn es'))"
      using distinct_x_iff [OF assms(2)] by simp
    then have "distinct (take kn es')" and inj: "inj_on fst (set (take kn es'))"
      by (simp_all add: distinct_map)
    then have "card (set (take kn es')) = kn"
      using assms(2) by (simp add: distinct_card)
    then have "card (set (take kn es)) = length (take kn es)"
      using assms(1,3) by simp
    then have "distinct (take kn es)"
      by (rule card_distinct)
    then have "distinct (map fst (take kn es))"
      using inj assms(3) by (simp add: distinct_map)
    then have "distinct_x es kn"
      using distinct_x_iff [OF assms(1)] by simp
    with False show False by simp
  qed
  then show ?thesis
    by (simp add: reconstruct_duplicate [OF assms(1) False] reconstruct_duplicate [OF assms(2)])
qed

lemma reconstruct_samples:
  assumes "kn \<le> length es" and "distinct (map fst (take kn es))" and "length cs \<le> kn"
    and "\<forall>p \<in> set (take kn es). snd p = poly_eval cs (fst p)"
  shows "reconstruct es (int kn) = Inr (poly_eval cs 0)"
proof -
  have dx: "distinct_x es kn"
    using distinct_x_iff [OF assms(1)] assms(2) by simp
  have "distinct (take kn es)" and inj: "inj_on fst (set (take kn es))"
    using assms(2) by (simp_all add: distinct_map)
  then have card: "card (set (take kn es)) = kn"
    using assms(1) by (simp add: distinct_card)
  have "lagrange_sum es kn = of_int (poly_eval cs 0)"
    unfolding lagrange_sum_set [OF assms(1) dx]
    using inj assms(3,4) card by (intro lagrange_set_samples) simp_all
  then show ?thesis
    by (simp add: reconstruct_distinct [OF assms(1) dx])
qed

section \<open>The digit parser\<close>

lemma of_char_toLowerCase_char:
  "int (of_char (toLowerCase_char ch)) =
     (if 65 \<le> int (of_char ch) \<and> int (of_char ch) \<le> 90 then int (of_char ch) + 32
      else int (of_char ch))"
proof -
  have "(of_char ch :: nat) < 256" by simp
  then show ?thesis
    by (auto simp: toLowerCase_char_def)
qed

lemma parse_loop_digit:
  assumes "digit_of ch = Some v" and "v < b"
  shows "parse_loop b acc (toLowerCase_char ch # rest) = parse_loop b (acc * b + v) rest"
  using assms
  by (auto simp: digit_of_def Let_def of_char_toLowerCase_char split: if_splits)

lemma parse_loop_out_of_range:
  assumes "digit_of ch = Some v" and "v \<ge> b"
  shows "parse_loop b acc (toLowerCase_char ch # rest) = Inl DigitOutOfRange"
  using assms
  by (auto simp: digit_of_def Let_def of_char_toLowerCase_char split: if_splits)

lemma parse_loop_invalid:
  assumes "digit_of ch = None"
  shows "parse_loop b acc (toLowerCase_char ch # rest) = Inl InvalidDigit"
  using assms
  by (auto simp: digit_of_def Let_def of_char_toLowerCase_char split: if_splits)

lemma parse_loop_horner:
  assumes "map digit_of str = map Some ds" and "\<forall>d \<in> set ds. d < b"
  shows "parse_loop b acc (map toLowerCase_char str) =
         Inr (foldl (\<lambda>result digit. result * b + digit) acc ds)"
  using assms
proof (induction str arbitrary: acc ds)
  case Nil
  then show ?case by simp
next
  case (Cons ch str)
  then obtain v ds' where ds: "ds = v # ds'" "digit_of ch = Some v"
    "map digit_of str = map Some ds'"
    by (cases ds) auto
  then have "v < b" and "\<forall>d \<in> set ds'. d < b"
    using Cons.prems(2) by simp_all
  then show ?case
    using Cons.IH [OF ds(3)] ds(1,2) by (simp add: parse_loop_digit del: parse_loop.simps)
qed

lemma digit_of_nonneg: "digit_of ch = Some v \<Longrightarrow> 0 \<le> v"
  by (auto simp: digit_of_def Let_def split: if_splits)

lemma foldl_horner_nonneg:
  fixes b :: int
  assumes "0 \<le> b" and "0 \<le> acc" and "\<forall>d \<in> set ds. 0 \<le> d"
  shows "0 \<le> foldl (\<lambda>result digit. result * b + digit) acc ds"
  using assms(2,3)
proof (induction ds arbitrary: acc)
  case Nil
  then show ?case by simp
next
  case (Cons d ds)
  have "0 \<le> acc * b" and "0 \<le> d"
    using assms(1) Cons.prems by (simp_all add: mult_nonneg_nonneg)
  then have "0 \<le> acc * b + d"
    by simp
  then show ?case
    using Cons.IH [of "acc * b + d"] Cons.prems(2) by simp
qed

lemma parse_loop_find:
  "parse_loop b acc (map toLowerCase_char str) =
     (case find (offending b) str of
        None \<Rightarrow> parse_loop b acc (map toLowerCase_char str)
      | Some ch \<Rightarrow> if digit_of ch = None then Inl InvalidDigit else Inl DigitOutOfRange)"
proof (induction str arbitrary: acc)
  case Nil
  then show ?case by simp
next
  case (Cons ch str)
  show ?case
  proof (cases "digit_of ch")
    case None
    then show ?thesis
      by (simp add: offending_def parse_loop_invalid del: parse_loop.simps)
  next
    case (Some v)
    show ?thesis
    proof (cases "v < b")
      case True
      then have "\<not> offending b ch" by (simp add: offending_def Some)
      then show ?thesis
        using Cons.IH [of "acc * b + v"] Some True
        by (simp add: parse_loop_digit del: parse_loop.simps split: option.splits)
    next
      case False
      then show ?thesis
        using Some by (simp add: offending_def parse_loop_out_of_range del: parse_loop.simps)
    qed
  qed
qed

lemma parse_loop_no_offending:
  assumes "find (offending b) str = None"
  shows "\<exists>v. parse_loop b acc (map toLowerCase_char str) = Inr v"
  using assms
proof (induction str arbitrary: acc)
  case Nil
  then show ?case by simp
next
  case (Cons ch str)
  then have no: "\<not> offending b ch" and rest: "find (offending b) str = None"
    by (simp_all split: if_splits)
  from no obtain v where v: "digit_of ch = Some v" "v < b"
    by (auto simp: offending_def split: option.splits)
  show ?case
    using Cons.IH [OF rest, of "acc * b + v"] v
    by (simp add: parse_loop_digit del: parse_loop.simps)
qed

section \<open>Helper facts on computeConstantTerm\<close>

lemma slice_0_nat: "slice_0 xs (int kn) = take kn xs"
  by (simp add: slice_0_def)

lemma computeConstantTerm_decoded:
  assumes "map_entries (Object_entries (pointsRaw tc)) = Inr pts" and "keys_k tc = int kn"
  shows "computeConstantTerm tc = reconstruct (take kn pts) (int kn)"
  using assms by (simp add: computeConstantTerm_def slice_0_nat)

lemma reconstruct_take:
  assumes "kn \<le> length pts"
  shows "reconstruct (take kn pts) (int kn) = reconstruct pts (int kn)"
  using assms by (intro reconstruct_set) simp_all

lemma reconstruct_zero: "reconstruct es 0 = Inr 0"
proof -
  obtain zero where zero: "Rational 0 1 = Inr zero" "reduced zero" "rat_of zero = 0"
    using Rational_int_ok [of 0] by auto
  have "outer_loop es 0 0 zero = Inr zero"
    by (subst outer_loop.simps) simp
  moreover have "Rational_toBigInt zero = Inr 0"
    using toBigInt_integral [OF zero(2), of 0] zero(3) by simp
  ultimately show ?thesis
    by (simp add: reconstruct_def zero(1))
qed

lemma computeConstantTerm_zero_decoded:
  assumes "map_entries (Object_entries (pointsRaw tc)) = Inr pts" and "keys_k tc = 0"
  shows "computeConstantTerm tc = Inr 0"
  using assms by (simp add: computeConstantTerm_def reconstruct_zero)

lemma Rational_reduced:
  assumes "Rational a b = Inr r"
  shows "reduced r \<and> rat_of r = Fract a b"
proof (cases "b = 0")
  case True
  with assms show ?thesis by (simp add: Rational_zero)
next
  case False
  from Rational_ok [OF False, of a] assms show ?thesis by auto
qed

lemma reduced_zero:
  assumes "reduced r" and "r_n r = 0"
  shows "r = \<lparr>r_n = 0, r_d = 1\<rparr>"
  using assms by (cases r) (auto simp: reduced_def)

section \<open>Keys and enumeration order\<close>



















text \<open>
  When every entry decodes, two equal abscissas among the first \<open>k\<close> points end the
  computation in the constructor, on the denominator \<open>x\<^sub>i - x\<^sub>j = 0\<close>.
\<close>

lemma duplicate_x_decoded:
  assumes "map_entries (Object_entries (pointsRaw tc)) = Inr pts"
    and "keys_k tc = int kn" and "kn \<le> length pts"
    and "i < kn" and "j < kn" and "i \<noteq> j" and "fst (pts ! i) = fst (pts ! j)"
  shows "computeConstantTerm tc = Inl DivisionByZero \<and>
    Rational (- fst (pts ! j)) (fst (pts ! i) - fst (pts ! j)) = Inl DivisionByZero"
proof -
  have "\<not> distinct_x (take kn pts) kn"
    using assms(4-7) by (auto simp: distinct_x_def)
  then have "reconstruct (take kn pts) (int kn) = Inl DivisionByZero"
    using assms(3) by (intro reconstruct_duplicate) simp_all
  then show ?thesis
    using computeConstantTerm_decoded [OF assms(1,2)] assms(7) by (simp add: Rational_zero)
qed

section \<open>Round trip and excess points\<close>

text \<open>
  C1. A polynomial of degree below \<open>k\<close> with integer coefficients, sampled at \<open>k\<close>
  distinct integers: the interpolation of the \<open>k\<close> points with threshold \<open>k\<close> returns
  its constant term, and so does \<open>computeConstantTerm\<close> on every test case with
  \<open>keys.k = k\<close> whose entries decode to these points.
\<close>

theorem round_trip:
  assumes "length cs \<le> length xs" and "distinct xs"
  shows "reconstruct (map (\<lambda>x. (x, poly_eval cs x)) xs) (int (length xs)) = Inr (poly_eval cs 0) \<and>
    (keys_k tc = int (length xs) \<and>
     map_entries (Object_entries (pointsRaw tc)) = Inr (map (\<lambda>x. (x, poly_eval cs x)) xs)
     \<longrightarrow> computeConstantTerm tc = Inr (poly_eval cs 0))"
proof -
  let ?es = "map (\<lambda>x. (x, poly_eval cs x)) xs"
  have r: "reconstruct ?es (int (length xs)) = Inr (poly_eval cs 0)"
    using assms by (intro reconstruct_samples) (auto simp: o_def)
  show ?thesis
  proof (intro conjI impI)
    show "reconstruct ?es (int (length xs)) = Inr (poly_eval cs 0)" by (rule r)
  next
    assume "keys_k tc = int (length xs) \<and>
      map_entries (Object_entries (pointsRaw tc)) = Inr ?es"
    then have "computeConstantTerm tc = reconstruct (take (length xs) ?es) (int (length xs))"
      by (intro computeConstantTerm_decoded) simp_all
    then show "computeConstantTerm tc = Inr (poly_eval cs 0)"
      using r by simp
  qed
qed

theorem round_trip_witness:
  "length [5, 1 :: int] \<le> length [1, 2, 3 :: int] \<and> distinct [1, 2, 3 :: int] \<and>
   keys_k \<lparr>keys_k = 3, pointsRaw = [(''1'', (10, ''6'')), (''2'', (10, ''7'')), (''3'', (10, ''8''))]\<rparr>
     = int (length [1, 2, 3 :: int]) \<and>
   map_entries (Object_entries (pointsRaw
     \<lparr>keys_k = 3, pointsRaw = [(''1'', (10, ''6'')), (''2'', (10, ''7'')), (''3'', (10, ''8''))]\<rparr>))
     = Inr (map (\<lambda>x. (x, poly_eval [5, 1] x)) [1, 2, 3]) \<and>
   reconstruct [(1, 6), (2, 7), (3, 8)] 3 = Inr 5 \<and>
   computeConstantTerm
     \<lparr>keys_k = 3, pointsRaw = [(''1'', (10, ''6'')), (''2'', (10, ''7'')), (''3'', (10, ''8''))]\<rparr>
     = Inr 5"
proof -
  let ?tc = "\<lparr>keys_k = 3,
    pointsRaw = [(''1'', (10, ''6'')), (''2'', (10, ''7'')), (''3'', (10, ''8''))]\<rparr>"
  have h1: "length [5, 1 :: int] \<le> length [1, 2, 3 :: int]" by simp
  have h2: "distinct [1, 2, 3 :: int]" by simp
  have h3: "keys_k ?tc = int (length [1, 2, 3 :: int])" by simp
  have h4: "map_entries (Object_entries (pointsRaw ?tc))
      = Inr (map (\<lambda>x. (x, poly_eval [5, 1] x)) [1, 2, 3])"
    by code_simp
  show ?thesis
    using round_trip [OF h1 h2, of ?tc] h3 h4 by simp
qed




section \<open>Errors of the interpolation and the Rational invariant\<close>

text \<open>
  C3 fails on the code: the first two points, under the keys \<^verbatim>\<open>+1\<close> and \<^verbatim>\<open>01\<close>, share
  the abscissa 1, but the callback of \<^verbatim>\<open>.map\<close> decodes the third entry before
  \<^verbatim>\<open>.slice(0, 2)\<close> drops it, and its digit \<^verbatim>\<open>z\<close> raises \<open>DigitOutOfRange\<close> before any
  denominator is formed. With a third entry that decodes the error is \<open>DivisionByZero\<close>.
\<close>

theorem duplicate_x_undecodable_trailing_entry:
  "BigInt_of_string ''+1'' = Inr 1 \<and> BigInt_of_string ''01'' = Inr 1 \<and>
   computeConstantTerm
     \<lparr>keys_k = 2, pointsRaw = [(''+1'', (10, ''6'')), (''01'', (10, ''7'')), (''+3'', (10, ''z''))]\<rparr>
     = Inl DigitOutOfRange \<and>
   computeConstantTerm
     \<lparr>keys_k = 2, pointsRaw = [(''+1'', (10, ''6'')), (''01'', (10, ''7'')), (''+3'', (10, ''8''))]\<rparr>
     = Inl DivisionByZero \<and>
   Rational (- 1) (1 - 1) = Inl DivisionByZero"
  by code_simp

text \<open>
  C4. The narrowing to an integer fails with \<open>NonIntegralResult\<close> exactly when the
  denominator is not 1, and returns the numerator otherwise. On a reduced object it
  succeeds exactly when the fraction is an integer, and returns that integer: no value is
  rounded.
\<close>

theorem toBigInt_narrowing:
  "(Rational_toBigInt r = Inl NonIntegralResult \<longleftrightarrow> r_d r \<noteq> 1) \<and>
   (r_d r = 1 \<longrightarrow> Rational_toBigInt r = Inr (r_n r)) \<and>
   (reduced r \<longrightarrow> (Rational_toBigInt r = Inr v \<longleftrightarrow> rat_of r = of_int v))"
proof (intro conjI impI)
  show "Rational_toBigInt r = Inl NonIntegralResult \<longleftrightarrow> r_d r \<noteq> 1"
    by (simp add: Rational_toBigInt_def)
next
  assume "r_d r = 1"
  then show "Rational_toBigInt r = Inr (r_n r)"
    by (simp add: Rational_toBigInt_def)
next
  assume red: "reduced r"
  show "Rational_toBigInt r = Inr v \<longleftrightarrow> rat_of r = of_int v"
  proof
    assume "Rational_toBigInt r = Inr v"
    then have "r_d r = 1" and "r_n r = v"
      by (simp_all add: Rational_toBigInt_def split: if_splits)
    then show "rat_of r = of_int v"
      by (simp add: rat_of_def Fract_of_int_eq)
  next
    assume "rat_of r = of_int v"
    then show "Rational_toBigInt r = Inr v"
      using red by (intro toBigInt_integral)
  qed
qed

theorem toBigInt_narrowing_witness:
  "r_d \<lparr>r_n = 7, r_d = 1\<rparr> = 1 \<and> reduced \<lparr>r_n = 7, r_d = 1\<rparr> \<and>
   Rational_toBigInt \<lparr>r_n = 7, r_d = 1\<rparr> = Inr 7 \<and> rat_of \<lparr>r_n = 7, r_d = 1\<rparr> = of_int 7 \<and>
   Rational_toBigInt \<lparr>r_n = 7, r_d = 2\<rparr> = Inl NonIntegralResult"
proof -
  have h1: "r_d \<lparr>r_n = 7, r_d = 1\<rparr> = 1" by simp
  have h2: "reduced \<lparr>r_n = 7, r_d = 1\<rparr>" by (simp add: reduced_def)
  have c1: "Rational_toBigInt \<lparr>r_n = 7, r_d = 1\<rparr> = Inr 7"
    using toBigInt_narrowing [of "\<lparr>r_n = 7, r_d = 1\<rparr>" 7] h1 by simp
  have c2: "rat_of \<lparr>r_n = 7, r_d = 1\<rparr> = of_int 7"
    using toBigInt_narrowing [of "\<lparr>r_n = 7, r_d = 1\<rparr>" 7] h2 c1 by blast
  have c3: "Rational_toBigInt \<lparr>r_n = 7, r_d = 2\<rparr> = Inl NonIntegralResult"
    using toBigInt_narrowing [of "\<lparr>r_n = 7, r_d = 2\<rparr>" 0] by simp
  show ?thesis
    using h1 h2 c1 c2 c3 by blast
qed

text \<open>
  C5. Every object that the constructor, \<open>add\<close> or \<open>multiply\<close> produces has a positive
  denominator that has no common divisor with the numerator, and is \<open>(0, 1)\<close> when its
  numerator is 0; the constructor produces an object for every nonzero denominator, and
  \<open>add\<close> and \<open>multiply\<close> for all operands with nonzero denominators.
\<close>

theorem reduction_invariant:
  "(Rational a b = Inr r \<longrightarrow> reduced r \<and> (r_n r = 0 \<longrightarrow> r = \<lparr>r_n = 0, r_d = 1\<rparr>)) \<and>
   (Rational_add p q = Inr s \<longrightarrow> reduced s \<and> (r_n s = 0 \<longrightarrow> s = \<lparr>r_n = 0, r_d = 1\<rparr>)) \<and>
   (Rational_multiply p q = Inr t \<longrightarrow> reduced t \<and> (r_n t = 0 \<longrightarrow> t = \<lparr>r_n = 0, r_d = 1\<rparr>)) \<and>
   (b \<noteq> 0 \<longrightarrow> (\<exists>r'. Rational a b = Inr r')) \<and>
   (r_d p \<noteq> 0 \<and> r_d q \<noteq> 0 \<longrightarrow>
      (\<exists>s'. Rational_add p q = Inr s') \<and> (\<exists>t'. Rational_multiply p q = Inr t'))"
proof -
  have made: "reduced x \<and> (r_n x = 0 \<longrightarrow> x = \<lparr>r_n = 0, r_d = 1\<rparr>)"
    if "Rational c e = Inr x" for c e x
    using Rational_reduced [OF that] reduced_zero [of x] by blast
  have exists: "\<exists>x. Rational c e = Inr x" if "e \<noteq> 0" for c e
    using Rational_ok [OF that, of c] by blast
  have c1: "Rational a b = Inr r \<longrightarrow> reduced r \<and> (r_n r = 0 \<longrightarrow> r = \<lparr>r_n = 0, r_d = 1\<rparr>)"
    using made by blast
  have c2: "Rational_add p q = Inr s \<longrightarrow> reduced s \<and> (r_n s = 0 \<longrightarrow> s = \<lparr>r_n = 0, r_d = 1\<rparr>)"
    unfolding Rational_add_def using made by blast
  have c3: "Rational_multiply p q = Inr t \<longrightarrow>
      reduced t \<and> (r_n t = 0 \<longrightarrow> t = \<lparr>r_n = 0, r_d = 1\<rparr>)"
    unfolding Rational_multiply_def using made by blast
  have c4: "b \<noteq> 0 \<longrightarrow> (\<exists>r'. Rational a b = Inr r')"
    using exists by blast
  have c5: "r_d p \<noteq> 0 \<and> r_d q \<noteq> 0 \<longrightarrow>
      (\<exists>s'. Rational_add p q = Inr s') \<and> (\<exists>t'. Rational_multiply p q = Inr t')"
    unfolding Rational_add_def Rational_multiply_def
    using exists [of "r_d p * r_d q"] by simp
  show ?thesis
    using c1 c2 c3 c4 c5 by blast
qed

theorem reduction_invariant_witness:
  "(- 4 :: int) \<noteq> 0 \<and> r_d \<lparr>r_n = 1, r_d = 2\<rparr> \<noteq> 0 \<and> r_d \<lparr>r_n = - 1, r_d = 2\<rparr> \<noteq> 0 \<and>
   Rational 6 (- 4) = Inr \<lparr>r_n = - 3, r_d = 2\<rparr> \<and> reduced \<lparr>r_n = - 3, r_d = 2\<rparr> \<and>
   Rational_add \<lparr>r_n = 1, r_d = 2\<rparr> \<lparr>r_n = - 1, r_d = 2\<rparr> = Inr \<lparr>r_n = 0, r_d = 1\<rparr> \<and>
   reduced \<lparr>r_n = 0, r_d = 1\<rparr> \<and>
   Rational_multiply \<lparr>r_n = 1, r_d = 2\<rparr> \<lparr>r_n = - 1, r_d = 2\<rparr> = Inr \<lparr>r_n = - 1, r_d = 4\<rparr> \<and>
   reduced \<lparr>r_n = - 1, r_d = 4\<rparr>"
proof -
  have h0: "(- 4 :: int) \<noteq> 0" "r_d \<lparr>r_n = 1, r_d = 2\<rparr> \<noteq> 0" "r_d \<lparr>r_n = - 1, r_d = 2\<rparr> \<noteq> 0"
    by simp_all
  have h1: "Rational 6 (- 4) = Inr \<lparr>r_n = - 3, r_d = 2\<rparr>" by code_simp
  have h2: "Rational_add \<lparr>r_n = 1, r_d = 2\<rparr> \<lparr>r_n = - 1, r_d = 2\<rparr> = Inr \<lparr>r_n = 0, r_d = 1\<rparr>"
    by code_simp
  have h3: "Rational_multiply \<lparr>r_n = 1, r_d = 2\<rparr> \<lparr>r_n = - 1, r_d = 2\<rparr> = Inr \<lparr>r_n = - 1, r_d = 4\<rparr>"
    by code_simp
  show ?thesis
    using reduction_invariant [of 6 "- 4" "\<lparr>r_n = - 3, r_d = 2\<rparr>"
        "\<lparr>r_n = 1, r_d = 2\<rparr>" "\<lparr>r_n = - 1, r_d = 2\<rparr>" "\<lparr>r_n = 0, r_d = 1\<rparr>"
        "\<lparr>r_n = - 1, r_d = 4\<rparr>"] h0 h1 h2 h3
    by blast
qed

section \<open>Results of the digit parser\<close>

text \<open>
  C6. On a string whose characters are all digits of the radix, letters of either case
  included, \<open>parseBigInt\<close> returns the value that Horner's rule gives on the digit
  values from left to right, which is not negative; \<^verbatim>\<open>ff\<close> in radix 16 is 255, \<^verbatim>\<open>1010\<close>
  in radix 2 is 10, \<^verbatim>\<open>z\<close> in radix 36 is 35.
\<close>

theorem parseBigInt_horner:
  assumes "2 \<le> radix" and "radix \<le> 36"
    and "map digit_of str = map Some ds" and "\<forall>d \<in> set ds. d < radix"
  shows "parseBigInt str radix = Inr (horner radix ds) \<and> 0 \<le> horner radix ds \<and>
    parseBigInt ''ff'' 16 = Inr 255 \<and> parseBigInt ''1010'' 2 = Inr 10 \<and>
    parseBigInt ''z'' 36 = Inr 35"
proof -
  have "parseBigInt str radix = Inr (horner radix ds)"
    unfolding parseBigInt_def toLowerCase_def horner_def
    using assms(3,4) by (rule parse_loop_horner)
  moreover have "0 \<le> horner radix ds"
  proof -
    have "\<forall>d \<in> set ds. 0 \<le> d"
    proof
      fix d assume "d \<in> set ds"
      then have "Some d \<in> set (map digit_of str)"
        using assms(3) by simp
      then obtain ch where "digit_of ch = Some d" by auto
      then show "0 \<le> d" by (rule digit_of_nonneg)
    qed
    then show ?thesis
      unfolding horner_def using assms(1) by (intro foldl_horner_nonneg) simp_all
  qed
  moreover have "parseBigInt ''ff'' 16 = Inr 255" by code_simp
  moreover have "parseBigInt ''1010'' 2 = Inr 10" by code_simp
  moreover have "parseBigInt ''z'' 36 = Inr 35" by code_simp
  ultimately show ?thesis by blast
qed

theorem parseBigInt_horner_witness:
  "(2 :: int) \<le> 16 \<and> (16 :: int) \<le> 36 \<and> map digit_of ''1aF'' = map Some [1, 10, 15] \<and>
   list_all (\<lambda>d. d < 16) [1, 10, 15 :: int] \<and>
   horner 16 [1, 10, 15] = 431 \<and> parseBigInt ''1aF'' 16 = Inr 431"
proof -
  have h1: "(2 :: int) \<le> 16" and h2: "(16 :: int) \<le> 36" by simp_all
  have h3: "map digit_of ''1aF'' = map Some [1, 10, 15]" by code_simp
  have h4: "\<forall>d \<in> set [1, 10, 15 :: int]. d < 16" by simp
  have h4': "list_all (\<lambda>d. d < 16) [1, 10, 15 :: int]" by simp
  have h5: "horner 16 [1, 10, 15] = 431" by code_simp
  have "parseBigInt ''1aF'' 16 = Inr (horner 16 [1, 10, 15])"
    using parseBigInt_horner [OF h1 h2 h3 h4] by blast
  then have c: "parseBigInt ''1aF'' 16 = Inr 431"
    by (simp only: h5)
  show ?thesis
    using h1 h2 h3 h4' h5 c by blast
qed

text \<open>
  C7, as stated, fails: in \<^verbatim>\<open>f!\<close> with radix 10 the character \<^verbatim>\<open>!\<close> is outside the
  alphanumeric set, yet the error is \<open>DigitOutOfRange\<close>, raised by the \<^verbatim>\<open>f\<close> before it;
  in \<^verbatim>\<open>!f\<close> the digit \<^verbatim>\<open>f\<close> is 15, not below the radix, yet the error is \<open>InvalidDigit\<close>.
\<close>

theorem parseBigInt_errors_counterexample:
  "parseBigInt ''f!'' 10 = Inl DigitOutOfRange \<and> digit_of (CHR ''!'') = None \<and>
   parseBigInt ''!f'' 10 = Inl InvalidDigit \<and> digit_of (CHR ''f'') = Some 15"
  by code_simp

text \<open>
  C7, amended. The parser stops at the first character from the left that is no digit
  or is a digit not below the radix. It fails with \<open>InvalidDigit\<close> exactly when that
  character is no digit, with \<open>DigitOutOfRange\<close> exactly when it is a digit not below
  the radix, and it returns a value exactly when the string has no such character.
\<close>

theorem parseBigInt_errors:
  "(parseBigInt str radix = Inl InvalidDigit \<longleftrightarrow>
      (\<exists>ch. find (offending radix) str = Some ch \<and> digit_of ch = None)) \<and>
   (parseBigInt str radix = Inl DigitOutOfRange \<longleftrightarrow>
      (\<exists>ch v. find (offending radix) str = Some ch \<and> digit_of ch = Some v \<and> radix \<le> v)) \<and>
   ((\<exists>v. parseBigInt str radix = Inr v) \<longleftrightarrow> find (offending radix) str = None)"
proof (cases "find (offending radix) str")
  case None
  then obtain v where "parseBigInt str radix = Inr v"
    unfolding parseBigInt_def toLowerCase_def using parse_loop_no_offending by blast
  then show ?thesis
    using None by simp
next
  case (Some ch)
  then have off: "offending radix ch"
    by (auto simp: find_Some_iff)
  have p: "parseBigInt str radix =
      (if digit_of ch = None then Inl InvalidDigit else Inl DigitOutOfRange)"
    unfolding parseBigInt_def toLowerCase_def
    by (subst parse_loop_find) (simp add: Some)
  show ?thesis
  proof (cases "digit_of ch")
    case None
    then show ?thesis
      using p Some by simp
  next
    case (Some v)
    then have "radix \<le> v"
      using off by (simp add: offending_def)
    then show ?thesis
      using p Some \<open>find (offending radix) str = Some ch\<close> by simp
  qed
qed

text \<open>
  C9. For every radix, the empty digit string is accepted and its value is 0, the
  initial value of the accumulator.
\<close>

theorem parseBigInt_empty: "parseBigInt [] base = Inr 0"
  by (simp add: parseBigInt_def toLowerCase_def)

section \<open>Order of the points and the threshold zero\<close>

text \<open>
  C8. Two test cases with the same \<open>k\<close> whose decoded point lists are permutations of
  each other, have at least \<open>k\<close> points and have the same set of first \<open>k\<close> points give
  the same result.
\<close>

theorem order_independence:
  assumes "map_entries (Object_entries (pointsRaw tc)) = Inr pts"
    and "map_entries (Object_entries (pointsRaw tc')) = Inr pts'"
    and "keys_k tc = int kn" and "keys_k tc' = int kn"
    and "kn \<le> length pts" and "mset pts' = mset pts"
    and "set (take kn pts') = set (take kn pts)"
  shows "computeConstantTerm tc' = computeConstantTerm tc \<and>
    reconstruct pts' (int kn) = reconstruct pts (int kn)"
proof -
  have len: "kn \<le> length pts'"
    using assms(5) mset_eq_length [OF assms(6)] by simp
  have r: "reconstruct pts' (int kn) = reconstruct pts (int kn)"
    using len assms(5,7) by (rule reconstruct_set)
  have "computeConstantTerm tc' = reconstruct pts' (int kn)"
    using computeConstantTerm_decoded [OF assms(2,4)] len by (simp add: reconstruct_take)
  moreover have "computeConstantTerm tc = reconstruct pts (int kn)"
    using computeConstantTerm_decoded [OF assms(1,3)] assms(5) by (simp add: reconstruct_take)
  ultimately show ?thesis
    using r by simp
qed

theorem order_independence_witness:
  "map_entries (Object_entries (pointsRaw
     \<lparr>keys_k = 2, pointsRaw = [(''0x2'', (10, ''9'')), (''+1'', (10, ''7'')), (''5'', (10, ''0''))]\<rparr>))
     = Inr [(5, 0), (2, 9), (1, 7)] \<and>
   map_entries (Object_entries (pointsRaw
     \<lparr>keys_k = 2, pointsRaw = [(''0x5'', (10, ''0'')), (''+1'', (10, ''7'')), (''2'', (10, ''9''))]\<rparr>))
     = Inr [(2, 9), (5, 0), (1, 7)] \<and>
   mset ([(2, 9), (5, 0), (1, 7)] :: point list) = mset [(5, 0), (2, 9), (1, 7)] \<and>
   set (take 2 ([(2, 9), (5, 0), (1, 7)] :: point list)) = set (take 2 [(5, 0), (2, 9), (1, 7)]) \<and>
   computeConstantTerm
     \<lparr>keys_k = 2, pointsRaw = [(''0x5'', (10, ''0'')), (''+1'', (10, ''7'')), (''2'', (10, ''9''))]\<rparr>
   = computeConstantTerm
     \<lparr>keys_k = 2, pointsRaw = [(''0x2'', (10, ''9'')), (''+1'', (10, ''7'')), (''5'', (10, ''0''))]\<rparr> \<and>
   computeConstantTerm
     \<lparr>keys_k = 2, pointsRaw = [(''0x5'', (10, ''0'')), (''+1'', (10, ''7'')), (''2'', (10, ''9''))]\<rparr>
   = Inr 15"
proof -
  let ?tc = "\<lparr>keys_k = 2,
    pointsRaw = [(''0x2'', (10, ''9'')), (''+1'', (10, ''7'')), (''5'', (10, ''0''))]\<rparr>"
  let ?tc' = "\<lparr>keys_k = 2,
    pointsRaw = [(''0x5'', (10, ''0'')), (''+1'', (10, ''7'')), (''2'', (10, ''9''))]\<rparr>"
  let ?pts = "[(5, 0), (2, 9), (1, 7)] :: point list"
  let ?pts' = "[(2, 9), (5, 0), (1, 7)] :: point list"
  have h1: "map_entries (Object_entries (pointsRaw ?tc)) = Inr ?pts" by code_simp
  have h2: "map_entries (Object_entries (pointsRaw ?tc')) = Inr ?pts'" by code_simp
  have h3: "keys_k ?tc = int 2" and h4: "keys_k ?tc' = int 2" by simp_all
  have h5: "2 \<le> length ?pts" by simp
  have h6: "mset ?pts' = mset ?pts" by (simp add: add.commute)
  have h7: "set (take 2 ?pts') = set (take 2 ?pts)" by (simp add: insert_commute)
  have c1: "computeConstantTerm ?tc' = computeConstantTerm ?tc"
    using order_independence [OF h1 h2 h3 h4 h5 h6 h7] by blast
  have c2: "computeConstantTerm ?tc' = Inr 15" by code_simp
  show ?thesis
    using h1 h2 h6 h7 c1 c2 by blast
qed

text \<open>
  C10 fails on the code: with \<open>k = 0\<close> the callback of \<^verbatim>\<open>.map\<close> still decodes every
  entry before \<^verbatim>\<open>.slice(0, 0)\<close> drops them all, so an entry that does not decode raises its
  error. Here the digit \<^verbatim>\<open>z\<close> is not below the radix 10.
\<close>

theorem threshold_zero_undecodable_entry:
  "computeConstantTerm \<lparr>keys_k = 0, pointsRaw = [(''1'', (10, ''z''))]\<rparr>
     = Inl DigitOutOfRange \<and>
   computeConstantTerm \<lparr>keys_k = 0, pointsRaw = [(''1'', (10, ''5''))]\<rparr> = Inr 0"
  by code_simp

end
